theory Spec2Isabelle
  imports Main "HOL-Library.Word"
begin

unbundle bit_operations_syntax

section \<open>The event dispatch of the editor window (main.go)\<close>

text \<open>
  The development embeds the serial event loop \<open>poll\<close> of main.go and the three
  dispatch functions it calls (\<open>mouseEvent\<close>, \<open>keyEvent\<close> with \<open>dirKey\<close> and
  \<open>modKey\<close>) together with \<open>bufTex\<close>. The window tree (\<open>ui.Win\<close>) and the host
  surface (screen, buffer, texture) are collaborators: every call the loop makes on
  them is recorded, in order, in a trace of actions. Go's \<open>int\<close> values are pixel
  counts, button numbers and small constants; they are modelled as \<open>int\<close>.
\<close>

subsection \<open>Geometry (package image)\<close>

record point =
  X :: int
  Y :: int

definition Pt :: "int \<Rightarrow> int \<Rightarrow> point" where
  "Pt x y = \<lparr>X = x, Y = y\<rparr>"

definition ZP :: point where
  "ZP = \<lparr>X = 0, Y = 0\<rparr>"

definition Mul :: "point \<Rightarrow> int \<Rightarrow> point" where
  "Mul p k = \<lparr>X = X p * k, Y = Y p * k\<rparr>"

record rectangle =
  rect_Min :: point
  rect_Max :: point

definition Dx :: "rectangle \<Rightarrow> int" where
  "Dx r = X (rect_Max r) - X (rect_Min r)"

definition Dy :: "rectangle \<Rightarrow> int" where
  "Dy r = Y (rect_Max r) - Y (rect_Min r)"

text \<open>
  A buffer or texture is represented by the size it was allocated with; its bounds are
  the rectangle from the origin to that size.
\<close>

definition Bounds :: "point \<Rightarrow> rectangle" where
  "Bounds sz = \<lparr>rect_Min = ZP, rect_Max = sz\<rparr>"

subsection \<open>Platform events (packages key, mouse, lifecycle, size, paint)\<close>

datatype key_direction = key_DirNone | key_DirPress | key_DirRelease

text \<open>
  The key codes the program names, the return key, and \<open>CodeOther\<close> for every other
  code of the platform.
\<close>

datatype key_code =
    CodeUpArrow | CodeDownArrow | CodeLeftArrow | CodeRightArrow
  | CodePageUp | CodePageDown | CodeHome | CodeEnd
  | CodeDeleteBackspace | CodeDeleteForward | CodeReturnEnter
  | CodeOther nat

type_synonym modifiers = "32 word"

definition ModShift :: modifiers where "ModShift = push_bit 0 1"
definition ModControl :: modifiers where "ModControl = push_bit 1 1"
definition ModAlt :: modifiers where "ModAlt = push_bit 2 1"
definition ModMeta :: modifiers where "ModMeta = push_bit 3 1"

record key_event =
  Rune :: int
  Code :: key_code
  Modifiers :: modifiers
  Direction :: key_direction

datatype mouse_direction = mouse_DirNone | mouse_DirPress | mouse_DirRelease | mouse_DirStep

definition ButtonNone :: int where "ButtonNone = 0"
definition ButtonLeft :: int where "ButtonLeft = 1"
definition ButtonMiddle :: int where "ButtonMiddle = 2"
definition ButtonRight :: int where "ButtonRight = 3"
definition ButtonWheelUp :: int where "ButtonWheelUp = - 1"
definition ButtonWheelDown :: int where "ButtonWheelDown = - 2"
definition ButtonWheelLeft :: int where "ButtonWheelLeft = - 3"
definition ButtonWheelRight :: int where "ButtonWheelRight = - 4"

text \<open>
  The coordinates of a mouse event are kept as the integers \<open>int(e.X)\<close> and
  \<open>int(e.Y)\<close> that \<open>mouseEvent\<close> makes of them.
\<close>

record mouse_event =
  mouse_X :: int
  mouse_Y :: int
  Button :: int
  mouse_Direction :: mouse_direction

datatype stage = StageDead | StageAlive | StageVisible | StageFocused

text \<open>
  What \<open>NextEvent\<close> can return: the loop's own \<open>done\<close> and \<open>time.Time\<close> values, a
  lifecycle event (its field \<open>To\<close>), a size event (its \<open>Size()\<close>), a paint, mouse or
  key event, and any other value, which the type switch ignores.
\<close>

datatype event =
    Done
  | Time
  | Lifecycle stage
  | Size point
  | Paint
  | Mouse mouse_event
  | Key key_event
  | OtherEvent

subsection \<open>Calls on the collaborators\<close>

datatype action =
    WinTick
  | WinFocus bool
  | WinResize point
  | WinDraw bool rectangle
  | WinWheel point int int
  | WinMove point
  | WinClick point int
  | WinDir int int
  | WinMod int
  | WinRune int
  | Send_paint
  | Cancel
  | NewBuffer point
  | NewTexture point
  | BufRelease
  | TexRelease
  | TexUpload
  | WindowDraw
  | Publish
  | WindowRelease
  | CloseDone

datatype error = Impossible | AllocFailed

text \<open>
  The collaborators' answers: what \<open>Tick\<close> of the window tree returns, as a function
  of the calls made so far, and whether the screen can allocate a buffer or a texture
  of a given size.
\<close>

record env =
  win_Tick :: "action list \<Rightarrow> bool"
  NewBuffer_ok :: "point \<Rightarrow> bool"
  NewTexture_ok :: "point \<Rightarrow> bool"

subsection \<open>mouseEvent\<close>

definition mouseEvent :: "mouse_event \<Rightarrow> action list" where
  "mouseEvent e =
     (let pt = Pt (mouse_X e) (mouse_Y e) in
      if Button e = ButtonWheelUp then [WinWheel pt 0 1]
      else if Button e = ButtonWheelDown then [WinWheel pt 0 (- 1)]
      else if Button e = ButtonWheelLeft then [WinWheel pt (- 1) 0]
      else if Button e = ButtonWheelRight then [WinWheel pt 1 0]
      else if mouse_Direction e = mouse_DirNone then [WinMove pt]
      else if mouse_Direction e = mouse_DirPress then [WinClick pt (Button e)]
      else if mouse_Direction e = mouse_DirRelease then [WinClick pt (- Button e)]
      else if mouse_Direction e = mouse_DirStep then
        [WinClick pt (Button e), WinClick pt (- Button e)]
      else [])"

subsection \<open>keyEvent, dirKey and modKey\<close>

definition MinInt16 :: int where "MinInt16 = - 32768"
definition MaxInt16 :: int where "MaxInt16 = 32767"

definition dirKeyCode :: "key_code \<rightharpoonup> bool" where
  "dirKeyCode = map_of
     [(CodeUpArrow, True), (CodeDownArrow, True), (CodeLeftArrow, True),
      (CodeRightArrow, True), (CodePageUp, True), (CodePageDown, True),
      (CodeHome, True), (CodeEnd, True)]"

text \<open>Reading a Go map of booleans at a missing key gives \<open>false\<close>.\<close>

definition dirKeyCode_at :: "key_code \<Rightarrow> bool" where
  "dirKeyCode_at c = (case dirKeyCode c of None \<Rightarrow> False | Some b \<Rightarrow> b)"

fun dirKey :: "key_event \<Rightarrow> error + action list" where
  "dirKey e =
     (case Code e of
        CodeUpArrow \<Rightarrow> Inr [WinDir 0 (- 1)]
      | CodeDownArrow \<Rightarrow> Inr [WinDir 0 1]
      | CodeLeftArrow \<Rightarrow> Inr [WinDir (- 1) 0]
      | CodeRightArrow \<Rightarrow> Inr [WinDir 1 0]
      | CodePageUp \<Rightarrow> Inr [WinDir 0 (- 2)]
      | CodePageDown \<Rightarrow> Inr [WinDir 0 2]
      | CodeHome \<Rightarrow> Inr [WinDir 0 MinInt16]
      | CodeEnd \<Rightarrow> Inr [WinDir 0 MaxInt16]
      | _ \<Rightarrow> Inl Impossible)"

text \<open>
  \<open>[4]bool\<close> is a list of four booleans. The loop of \<open>modKey\<close> looks for the first
  index at which the flags of the event differ from the tracked ones, reports it, takes
  over all flags of the event and stops.
\<close>

definition newMods_of :: "key_event \<Rightarrow> bool list" where
  "newMods_of e =
     [False,
      Modifiers e AND ModShift \<noteq> 0,
      Modifiers e AND ModAlt \<noteq> 0,
      Modifiers e AND ModMeta \<noteq> 0 \<or> Modifiers e AND ModControl \<noteq> 0]"

function modKey_loop :: "bool list \<Rightarrow> bool list \<Rightarrow> nat \<Rightarrow> action list \<times> bool list" where
  "modKey_loop newMods mods i =
     (if i < length newMods then
        (if newMods ! i \<noteq> mods ! i then
           ([WinMod (if \<not> newMods ! i then - int i else int i)], newMods)
         else modKey_loop newMods mods (i + 1))
      else ([], mods))"
  by pat_completeness auto
termination
  by (relation "measure (\<lambda>(newMods, mods, i). length newMods - i)") auto

declare modKey_loop.simps [simp del]

definition modKey :: "bool list \<Rightarrow> key_event \<Rightarrow> action list \<times> bool list" where
  "modKey mods e = modKey_loop (newMods_of e) mods 0"

definition keyEvent :: "bool list \<Rightarrow> key_event \<Rightarrow> error + (action list \<times> bool list)" where
  "keyEvent mods e0 =
     (let e = (if Direction e0 = key_DirNone then e0\<lparr>Direction := key_DirPress\<rparr> else e0) in
      if Direction e = key_DirPress \<and> dirKeyCode_at (Code e) then
        (case dirKey e of Inl err \<Rightarrow> Inl err | Inr acts \<Rightarrow> Inr (acts, mods))
      else
        (let e = (if Code e = CodeDeleteBackspace then e\<lparr>Rune := 8\<rparr>
                  else if Code e = CodeDeleteForward then e\<lparr>Rune := 127\<rparr>
                  else if Rune e = 13 then e\<lparr>Rune := 10\<rparr>
                  else e) in
         if Rune e > 0 then
           Inr (if Direction e = key_DirPress then [WinRune (Rune e)] else [], mods)
         else Inr (modKey mods e)))"

subsection \<open>bufTex and the loop poll\<close>

definition bufTex :: "env \<Rightarrow> point \<Rightarrow> error + (action list \<times> point \<times> point)" where
  "bufTex scr sz =
     (if \<not> NewBuffer_ok scr sz then Inl AllocFailed
      else if \<not> NewTexture_ok scr sz then Inl AllocFailed
      else Inr ([NewBuffer sz, NewTexture sz], sz, sz))"

text \<open>
  The state of the loop: the field \<open>size\<close> of the window, the locals \<open>mods\<close>,
  \<open>dirty\<close>, \<open>buf\<close> and \<open>tex\<close> of \<open>poll\<close>, and the calls made so far.
\<close>

record poll_state =
  w_size :: point
  mods :: "bool list"
  dirty :: bool
  buf :: point
  tex :: point
  trace :: "action list"

definition emit :: "action list \<Rightarrow> poll_state \<Rightarrow> poll_state" where
  "emit acts s = s\<lparr>trace := trace s @ acts\<rparr>"

text \<open>
  \<open>newWindow\<close> resizes the window tree to the size of the first size event; \<open>poll\<close>
  then starts with no modifier set, the dirty flag raised and a buffer and texture of
  that size.
\<close>

definition poll_init :: "env \<Rightarrow> point \<Rightarrow> error + poll_state" where
  "poll_init scr sz =
     (case bufTex scr sz of
        Inl err \<Rightarrow> Inl err
      | Inr (acts, b, t) \<Rightarrow>
          Inr \<lparr>w_size = sz, mods = [False, False, False, False], dirty = True,
               buf = b, tex = t, trace = WinResize sz # acts\<rparr>)"

text \<open>One turn of the loop: the type switch on the event.\<close>

fun poll_step :: "env \<Rightarrow> poll_state \<Rightarrow> event \<Rightarrow> error + poll_state" where
  "poll_step scr s Done = Inr (emit [BufRelease, TexRelease, WindowRelease, CloseDone] s)"
| "poll_step scr s Time =
     (if win_Tick scr (trace s) then Inr (emit [WinTick, Send_paint] s)
      else Inr (emit [WinTick] s))"
| "poll_step scr s (Lifecycle to) =
     (if to = StageDead then Inr (emit [Cancel] s)
      else Inr (emit [WinFocus (to = StageFocused)] s))"
| "poll_step scr s (Size sz) =
     (if sz = ZP then Inr (emit [Cancel] s)
      else
        (let s1 = emit [WinResize sz] (s\<lparr>w_size := sz\<rparr>);
             s2 = s1\<lparr>dirty := True\<rparr>;
             b = Bounds (tex s2) in
         if Dx b < X (w_size s2) \<or> Dy b < Y (w_size s2) then
           (case bufTex scr (Mul (w_size s2) 2) of
              Inl err \<Rightarrow> Inl err
            | Inr (acts, nb, nt) \<Rightarrow>
                Inr ((emit ([TexRelease, BufRelease] @ acts) s2)\<lparr>buf := nb, tex := nt\<rparr>))
         else Inr s2))"
| "poll_step scr s Paint =
     (let rect = \<lparr>rect_Min = ZP, rect_Max = w_size s\<rparr>;
          s1 = emit [WinDraw (dirty s) rect] s;
          s2 = s1\<lparr>dirty := False\<rparr>
      in Inr (emit [TexUpload, WindowDraw, Publish] s2))"
| "poll_step scr s (Mouse e) = Inr (emit (mouseEvent e) s)"
| "poll_step scr s (Key e) =
     (case keyEvent (mods s) e of
        Inl err \<Rightarrow> Inl err
      | Inr (acts, m) \<Rightarrow> Inr ((emit acts s)\<lparr>mods := m\<rparr>))"
| "poll_step scr s OtherEvent = Inr s"

text \<open>
  The loop on the events in the order \<open>NextEvent\<close> returns them. It returns after
  the turn for \<open>done\<close>, which releases the buffer, the texture and the window and
  closes the \<open>done\<close> channel; a panic ends it with the error; with no event left it
  waits.
\<close>

fun poll :: "env \<Rightarrow> poll_state \<Rightarrow> event list \<Rightarrow> error + poll_state" where
  "poll scr s [] = Inr s"
| "poll scr s (e # es) =
     (case poll_step scr s e of
        Inl err \<Rightarrow> Inl err
      | Inr s' \<Rightarrow> if e = Done then Inr s' else poll scr s' es)"

text \<open>The calls made between a state and a later one.\<close>

definition calls_since :: "poll_state \<Rightarrow> poll_state \<Rightarrow> action list" where
  "calls_since s s' = drop (length (trace s)) (trace s')"

text \<open>
  A screen that always allocates, under a window tree whose \<open>Tick\<close> asks for a
  repaint on every second call, and the state in which \<open>poll\<close> starts on it for a
  window of 800 by 600 pixels.
\<close>

definition scr0 :: env where
  "scr0 = \<lparr>win_Tick = (\<lambda>tr. even (length (filter (\<lambda>a. a = WinTick) tr))),
           NewBuffer_ok = (\<lambda>sz. True), NewTexture_ok = (\<lambda>sz. True)\<rparr>"

definition s0 :: poll_state where
  "s0 = \<lparr>w_size = Pt 800 600, mods = [False, False, False, False], dirty = True,
          buf = Pt 800 600, tex = Pt 800 600,
          trace = [WinResize (Pt 800 600), NewBuffer (Pt 800 600), NewTexture (Pt 800 600)]\<rparr>"

section \<open>Facts about the dispatch functions\<close>

lemma dirKeyCode_at_iff:
  "dirKeyCode_at c \<longleftrightarrow>
     c \<in> {CodeUpArrow, CodeDownArrow, CodeLeftArrow, CodeRightArrow,
          CodePageUp, CodePageDown, CodeHome, CodeEnd}"
  by (cases c) (simp_all add: dirKeyCode_at_def dirKeyCode_def)

lemma modKey_loop_cases:
  "modKey_loop n m i = (acts, m') \<Longrightarrow>
     (acts = [] \<and> m' = m \<and> (\<forall>k. i \<le> k \<and> k < length n \<longrightarrow> n ! k = m ! k))
   \<or> (\<exists>j. i \<le> j \<and> j < length n \<and> n ! j \<noteq> m ! j
          \<and> (\<forall>k. i \<le> k \<and> k < j \<longrightarrow> n ! k = m ! k)
          \<and> acts = [WinMod (if \<not> n ! j then - int j else int j)] \<and> m' = n)"
proof (induction n m i rule: modKey_loop.induct)
  case (1 newMods mods i)
  have step: "k = i \<or> i + 1 \<le> k" if "i \<le> k" for k
    using that by arith
  show ?case
  proof (cases "i < length newMods")
    case False
    with "1.prems" show ?thesis by (auto simp add: modKey_loop.simps)
  next
    case lt: True
    show ?thesis
    proof (cases "newMods ! i \<noteq> mods ! i")
      case True
      with lt "1.prems" have "acts = [WinMod (if \<not> newMods ! i then - int i else int i)]"
        and "m' = newMods"
        by (auto simp add: modKey_loop.simps [of newMods mods i])
      with lt True show ?thesis
        by (intro disjI2 exI [of _ i]) auto
    next
      case False
      with lt "1.prems" have "modKey_loop newMods mods (i + 1) = (acts, m')"
        by (simp add: modKey_loop.simps [of newMods mods i])
      from "1.IH" [OF lt _ this] False
      consider
        (none) "acts = []" "m' = mods"
          "\<forall>k. i + 1 \<le> k \<and> k < length newMods \<longrightarrow> newMods ! k = mods ! k"
      | (some) j where "i + 1 \<le> j" "j < length newMods" "newMods ! j \<noteq> mods ! j"
          "\<forall>k. i + 1 \<le> k \<and> k < j \<longrightarrow> newMods ! k = mods ! k"
          "acts = [WinMod (if \<not> newMods ! j then - int j else int j)]" "m' = newMods"
        by blast
      then show ?thesis
      proof cases
        case none
        have "\<forall>k. i \<le> k \<and> k < length newMods \<longrightarrow> newMods ! k = mods ! k"
        proof (intro allI impI)
          fix k assume "i \<le> k \<and> k < length newMods"
          with step [of k] none(3) False show "newMods ! k = mods ! k" by blast
        qed
        with none show ?thesis by blast
      next
        case some
        have "\<forall>k. i \<le> k \<and> k < j \<longrightarrow> newMods ! k = mods ! k"
        proof (intro allI impI)
          fix k assume "i \<le> k \<and> k < j"
          with step [of k] some(4) False show "newMods ! k = mods ! k" by blast
        qed
        moreover from some(1) have "i \<le> j" by arith
        ultimately show ?thesis using some by blast
      qed
    qed
  qed
qed

lemma keyEvent_dir:
  "Direction e \<noteq> key_DirRelease \<Longrightarrow> dirKeyCode_at (Code e) \<Longrightarrow>
   keyEvent m e = (case dirKey e of Inl err \<Rightarrow> Inl err | Inr acts \<Rightarrow> Inr (acts, m))"
  by (cases "Direction e") (auto simp add: keyEvent_def dirKeyCode_at_iff)

lemma keyEvent_other:
  "Direction e = key_DirRelease \<or> \<not> dirKeyCode_at (Code e) \<Longrightarrow>
   keyEvent m e =
     (let r = (if Code e = CodeDeleteBackspace then 8
               else if Code e = CodeDeleteForward then 127
               else if Rune e = 13 then 10 else Rune e)
      in if r > 0 then Inr (if Direction e \<noteq> key_DirRelease then [WinRune r] else [], m)
         else Inr (modKey m e))"
  by (cases "Direction e") (auto simp add: keyEvent_def modKey_def newMods_of_def Let_def)

lemma calls_since_emit [simp]: "calls_since s ((emit acts s)\<lparr>mods := m\<rparr>) = acts"
  and calls_since_emit' [simp]: "calls_since s (emit acts s) = acts"
  by (simp_all add: calls_since_def emit_def)

lemma emit_same_mods [simp]: "(emit acts s)\<lparr>mods := mods s\<rparr> = emit acts s"
  by (simp add: emit_def)

lemma keyEvent_WinDir:
  assumes "keyEvent m e = Inr (acts, m')" and "WinDir x y \<in> set acts"
  shows "Direction e \<noteq> key_DirRelease \<and> dirKeyCode_at (Code e) \<and> (x = 0) \<noteq> (y = 0)"
proof (cases "Direction e \<noteq> key_DirRelease \<and> dirKeyCode_at (Code e)")
  case True
  with assms show ?thesis
    by (auto simp add: keyEvent_dir dirKeyCode_at_iff MinInt16_def MaxInt16_def)
next
  case False
  then have *: "Direction e = key_DirRelease \<or> \<not> dirKeyCode_at (Code e)" by blast
  have "WinDir x y \<notin> set (fst (modKey m e))"
    using modKey_loop_cases [of "newMods_of e" m 0 "fst (modKey m e)" "snd (modKey m e)"]
    by (auto simp add: modKey_def)
  with assms show ?thesis
    by (auto simp add: keyEvent_other [OF *] Let_def split: if_splits)
qed

lemma int16_range: "MinInt16 \<le> sint (w :: 16 word) \<and> sint w \<le> MaxInt16"
  using sint_ge [of w] sint_lt [of w] by (simp add: MinInt16_def MaxInt16_def)

lemma emit_Nil [simp]: "emit [] s = s"
  by (simp add: emit_def)

lemma emit_fields [simp]:
  "w_size (emit acts s) = w_size s" "mods (emit acts s) = mods s"
  "dirty (emit acts s) = dirty s" "buf (emit acts s) = buf s" "tex (emit acts s) = tex s"
  "trace (emit acts s) = trace s @ acts"
  by (simp_all add: emit_def)

lemma calls_since_trace: "trace s' = trace s @ acts \<Longrightarrow> calls_since s s' = acts"
  by (simp add: calls_since_def)

lemma Bounds_Dx_Dy [simp]: "Dx (Bounds sz) = X sz" "Dy (Bounds sz) = Y sz"
  by (simp_all add: Dx_def Dy_def Bounds_def ZP_def)

lemma poll_step_Size:
  "poll_step scr s (Size sz) =
     (if sz = ZP then Inr (emit [Cancel] s)
      else if X (tex s) < X sz \<or> Y (tex s) < Y sz then
        (if NewBuffer_ok scr (Mul sz 2) \<and> NewTexture_ok scr (Mul sz 2) then
           Inr (s\<lparr>w_size := sz, dirty := True, buf := Mul sz 2, tex := Mul sz 2,
                  trace := trace s @ [WinResize sz, TexRelease, BufRelease,
                                      NewBuffer (Mul sz 2), NewTexture (Mul sz 2)]\<rparr>)
         else Inl AllocFailed)
      else Inr (s\<lparr>w_size := sz, dirty := True, trace := trace s @ [WinResize sz]\<rparr>))"
  by (simp add: Let_def bufTex_def emit_def)

lemma modKey_actions:
  "modKey m e = (acts, m') \<Longrightarrow> acts = [] \<or> (\<exists>k. acts = [WinMod k])"
  using modKey_loop_cases [of "newMods_of e" m 0 acts m'] by (auto simp add: modKey_def)

lemma keyEvent_actions:
  assumes "keyEvent m e = Inr (acts, m')" and "a \<in> set acts"
  shows "(\<exists>x y. a = WinDir x y) \<or> (\<exists>r. a = WinRune r \<and> 0 < r) \<or> (\<exists>k. a = WinMod k)"
proof (cases "Direction e \<noteq> key_DirRelease \<and> dirKeyCode_at (Code e)")
  case True
  with assms show ?thesis
    by (auto simp add: keyEvent_dir dirKeyCode_at_iff)
next
  case False
  then have *: "Direction e = key_DirRelease \<or> \<not> dirKeyCode_at (Code e)" by blast
  obtain macts mm where mk: "modKey m e = (macts, mm)" by (cases "modKey m e")
  from modKey_actions [OF mk] assms mk show ?thesis
    by (auto simp add: keyEvent_other [OF *] Let_def split: if_splits)
qed

lemma mouseEvent_actions:
  "a \<in> set (mouseEvent e) \<Longrightarrow>
     (\<exists>p x y. a = WinWheel p x y) \<or> (\<exists>p. a = WinMove p) \<or> (\<exists>p b. a = WinClick p b)"
  by (auto simp add: mouseEvent_def Let_def split: if_splits)

lemma poll_step_Key:
  "poll_step scr s (Key e) = Inr s' \<Longrightarrow>
   \<exists>acts m'. keyEvent (mods s) e = Inr (acts, m') \<and> s' = (emit acts s)\<lparr>mods := m'\<rparr>"
  by (auto split: sum.splits)

lemma poll_step_trace:
  assumes "poll_step scr s e = Inr s'"
  shows "trace s' = trace s @ calls_since s s'"
proof -
  have "\<exists>acts. trace s' = trace s @ acts"
  proof (cases e)
    case (Size sz)
    with assms show ?thesis unfolding Size poll_step_Size by (auto split: if_splits)
  next
    case (Key k)
    with assms poll_step_Key [of scr s k s'] show ?thesis by auto
  qed (use assms in \<open>auto split: if_splits\<close>)
  then show ?thesis by (auto simp add: calls_since_def)
qed

lemma calls_since_trans:
  "trace s1 = trace s @ calls_since s s1 \<Longrightarrow> trace s2 = trace s1 @ calls_since s1 s2 \<Longrightarrow>
   calls_since s s2 = calls_since s s1 @ calls_since s1 s2"
  by (metis append.assoc calls_since_trace)

lemma poll_trace:
  "poll scr s es = Inr s' \<Longrightarrow> trace s' = trace s @ calls_since s s'"
proof (induction es arbitrary: s)
  case Nil
  then show ?case by (simp add: calls_since_def)
next
  case (Cons e es)
  from Cons.prems obtain s1 where st: "poll_step scr s e = Inr s1"
    and rest: "(if e = Done then Inr s1 else poll scr s1 es) = Inr s'"
    by (auto split: sum.splits)
  note t1 = poll_step_trace [OF st]
  show ?case
  proof (cases "e = Done")
    case True
    with rest t1 show ?thesis by simp
  next
    case False
    with rest have "poll scr s1 es = Inr s'" by simp
    from Cons.IH [OF this] t1 show ?thesis
      by (metis append.assoc calls_since_trace)
  qed
qed

lemma poll_calls:
  assumes "poll scr s es = Inr s'"
    and step: "\<And>s1 e s2. poll_step scr s1 e = Inr s2 \<Longrightarrow> \<forall>a \<in> set (calls_since s1 s2). P a"
  shows "\<forall>a \<in> set (calls_since s s'). P a"
  using assms(1)
proof (induction es arbitrary: s)
  case Nil
  then show ?case by (simp add: calls_since_def)
next
  case (Cons e es)
  from Cons.prems obtain s1 where st: "poll_step scr s e = Inr s1"
    and rest: "(if e = Done then Inr s1 else poll scr s1 es) = Inr s'"
    by (auto split: sum.splits)
  show ?case
  proof (cases "e = Done")
    case True
    with rest step [OF st] show ?thesis by simp
  next
    case False
    with rest have r: "poll scr s1 es = Inr s'" by simp
    have "calls_since s s' = calls_since s s1 @ calls_since s1 s'"
      by (rule calls_since_trans [OF poll_step_trace [OF st] poll_trace [OF r]])
    with Cons.IH [OF r] step [OF st] show ?thesis by auto
  qed
qed

lemma poll_append:
  "Done \<notin> set es \<Longrightarrow>
   poll scr s (es @ es') = (case poll scr s es of Inl err \<Rightarrow> Inl err | Inr s1 \<Rightarrow> poll scr s1 es')"
  by (induction es arbitrary: s) (auto split: sum.splits)

lemma poll_step_Rune_pos:
  assumes "poll_step scr s e = Inr s'" and "WinRune r \<in> set (calls_since s s')"
  shows "0 < r"
proof (cases e)
  case (Size sz)
  with assms show ?thesis
    unfolding Size poll_step_Size by (auto simp add: calls_since_def split: if_splits)
next
  case (Mouse m)
  with assms mouseEvent_actions [of "WinRune r" m] show ?thesis by auto
next
  case (Key k)
  from assms(1) [unfolded Key] poll_step_Key obtain acts m'
    where k: "keyEvent (mods s) k = Inr (acts, m')" and s': "s' = (emit acts s)\<lparr>mods := m'\<rparr>"
    by blast
  from assms(2) s' have "WinRune r \<in> set acts" by simp
  from keyEvent_actions [OF k this] show ?thesis by auto
qed (use assms in \<open>auto simp add: calls_since_def split: if_splits\<close>)

lemma poll_step_keeps_dirty:
  assumes "poll_step scr s e = Inr s'" and "e \<noteq> Paint" and "dirty s"
  shows "dirty s'"
proof (cases e)
  case (Size sz)
  with assms show ?thesis unfolding Size poll_step_Size by (auto split: if_splits)
next
  case (Key k)
  with assms poll_step_Key [of scr s k s'] show ?thesis by auto
qed (use assms in \<open>auto split: if_splits\<close>)

lemma poll_keeps_dirty:
  "poll scr s es = Inr s' \<Longrightarrow> Paint \<notin> set es \<Longrightarrow> dirty s \<Longrightarrow> dirty s'"
proof (induction es arbitrary: s)
  case Nil
  then show ?case by simp
next
  case (Cons e es)
  from Cons.prems(1) obtain s1 where st: "poll_step scr s e = Inr s1"
    and rest: "(if e = Done then Inr s1 else poll scr s1 es) = Inr s'"
    by (auto split: sum.splits)
  from Cons.prems have d1: "dirty s1" by (intro poll_step_keeps_dirty [OF st]) auto
  show ?case
  proof (cases "e = Done")
    case True
    with rest d1 show ?thesis by simp
  next
    case False
    with rest Cons.prems d1 Cons.IH [of s1] show ?thesis by simp
  qed
qed

lemma poll_step_stays_clean:
  assumes "poll_step scr s e = Inr s'" and "\<not> dirty s" and "\<forall>p. e = Size p \<longrightarrow> p = ZP"
  shows "\<not> dirty s' \<and> (\<forall>r. WinDraw True r \<notin> set (calls_since s s'))"
proof (cases e)
  case (Size sz)
  with assms show ?thesis by auto
next
  case (Mouse m)
  from mouseEvent_actions [of _ m] have "\<forall>r. WinDraw True r \<notin> set (mouseEvent m)" by blast
  with assms Mouse show ?thesis by auto
next
  case (Key k)
  from assms(1) [unfolded Key] poll_step_Key obtain acts m'
    where k: "keyEvent (mods s) k = Inr (acts, m')" and s': "s' = (emit acts s)\<lparr>mods := m'\<rparr>"
    by blast
  from keyEvent_actions [OF k] have "\<forall>r. WinDraw True r \<notin> set acts" by blast
  with s' assms(2) show ?thesis by simp
qed (use assms in \<open>auto simp add: calls_since_def Let_def split: if_splits\<close>)

lemma poll_stays_clean:
  "poll scr s es = Inr s' \<Longrightarrow> \<not> dirty s \<Longrightarrow> \<forall>p. Size p \<in> set es \<longrightarrow> p = ZP \<Longrightarrow>
   \<not> dirty s' \<and> (\<forall>r. WinDraw True r \<notin> set (calls_since s s'))"
proof (induction es arbitrary: s)
  case Nil
  then show ?case by (simp add: calls_since_def)
next
  case (Cons e es)
  from Cons.prems(1) obtain s1 where st: "poll_step scr s e = Inr s1"
    and rest: "(if e = Done then Inr s1 else poll scr s1 es) = Inr s'"
    by (auto split: sum.splits)
  from Cons.prems have c1: "\<not> dirty s1 \<and> (\<forall>r. WinDraw True r \<notin> set (calls_since s s1))"
    by (intro poll_step_stays_clean [OF st]) auto
  show ?case
  proof (cases "e = Done")
    case True
    with rest c1 show ?thesis by simp
  next
    case False
    with rest have r: "poll scr s1 es = Inr s'" by simp
    have cs: "calls_since s s' = calls_since s s1 @ calls_since s1 s'"
      by (rule calls_since_trans [OF poll_step_trace [OF st] poll_trace [OF r]])
    from Cons.prems(3) have "\<forall>p. Size p \<in> set es \<longrightarrow> p = ZP" by simp
    from Cons.IH [OF r _ this] c1 cs show ?thesis by simp
  qed
qed

lemma poll_step_Paint:
  "poll_step scr s Paint =
     Inr (s\<lparr>dirty := False,
           trace := trace s @ [WinDraw (dirty s) \<lparr>rect_Min = ZP, rect_Max = w_size s\<rparr>,
                               TexUpload, WindowDraw, Publish]\<rparr>)"
  by (simp add: emit_def Let_def)

lemma keyEvent_DirNone:
  "keyEvent m (e\<lparr>Direction := key_DirNone\<rparr>) = keyEvent m (e\<lparr>Direction := key_DirPress\<rparr>)"
  by (simp add: keyEvent_def)

text \<open>
  What holds of the modifier state whatever the events: \<open>keyEvent\<close> never reaches
  the panic of \<open>dirKey\<close>; \<open>modKey\<close> forwards at most one call of \<open>Mod\<close>, whose
  argument is 1, 2 or 3 in absolute value, names a flag that differs and is positive
  exactly when the event reports that flag as set; a flag that is set and reported as
  set stays set; the flag of index 0 is never set. A texture made from non-negative
  sizes has non-negative bounds.
\<close>

lemma keyEvent_no_panic: "\<exists>acts m'. keyEvent m e = Inr (acts, m')"
proof (cases "Direction e \<noteq> key_DirRelease \<and> dirKeyCode_at (Code e)")
  case True
  then show ?thesis by (auto simp add: keyEvent_dir dirKeyCode_at_iff)
next
  case False
  then have *: "Direction e = key_DirRelease \<or> \<not> dirKeyCode_at (Code e)" by blast
  show ?thesis
    by (cases "modKey m e") (simp add: keyEvent_other [OF *] Let_def)
qed

lemma newMods_of_length: "length (newMods_of e) = 4"
  and newMods_of_0: "newMods_of e ! 0 = False"
  by (simp_all add: newMods_of_def)

lemma modKey_at_most_one_call:
  "modKey m e = (acts, m') \<Longrightarrow> length acts \<le> 1"
  using modKey_actions [of m e acts m'] by auto

lemma modKey_set_stays_set:
  assumes "modKey m e = (acts, m')" and "m ! j" and "newMods_of e ! j"
  shows "m' ! j"
  using modKey_loop_cases [of "newMods_of e" m 0 acts m'] assms
  by (auto simp add: modKey_def)

lemma modKey_Mod_argument:
  assumes "modKey m e = (acts, m')" and "\<not> m ! 0" and "WinMod k \<in> set acts"
  shows "k \<in> {1, 2, 3, - 1, - 2, - 3}
     \<and> (0 < k \<longleftrightarrow> newMods_of e ! nat \<bar>k\<bar>)
     \<and> m ! nat \<bar>k\<bar> \<noteq> newMods_of e ! nat \<bar>k\<bar>
     \<and> m' = newMods_of e"
proof -
  from assms(1) have "modKey_loop (newMods_of e) m 0 = (acts, m')"
    by (simp add: modKey_def)
  from modKey_loop_cases [OF this] show ?thesis
  proof (elim disjE exE conjE)
    assume "acts = []"
    with assms(3) show ?thesis by simp
  next
    fix j
    assume lt: "j < length (newMods_of e)" and ne: "newMods_of e ! j \<noteq> m ! j"
      and acts: "acts = [WinMod (if \<not> newMods_of e ! j then - int j else int j)]"
      and m': "m' = newMods_of e"
    from acts assms(3) have k: "k = (if \<not> newMods_of e ! j then - int j else int j)"
      by simp
    have "j \<noteq> 0"
    proof
      assume "j = 0"
      with ne assms(2) show False by (simp add: newMods_of_0)
    qed
    with lt consider "j = 1" | "j = 2" | "j = 3" by (simp only: newMods_of_length) arith
    then show ?thesis
    proof cases
      case 1
      show ?thesis
      proof (cases "newMods_of e ! 1")
        case True
        with 1 k have "k = 1" by simp
        with True ne 1 m' show ?thesis by simp
      next
        case False
        with 1 k have "k = - 1" by simp
        with False ne 1 m' show ?thesis by simp
      qed
    next
      case 2
      show ?thesis
      proof (cases "newMods_of e ! 2")
        case True
        with 2 k have "k = 2" by simp
        with True ne 2 m' show ?thesis by simp
      next
        case False
        with 2 k have "k = - 2" by simp
        with False ne 2 m' show ?thesis by simp
      qed
    next
      case 3
      show ?thesis
      proof (cases "newMods_of e ! 3")
        case True
        with 3 k have "k = 3" by simp
        with True ne 3 m' show ?thesis by simp
      next
        case False
        with 3 k have "k = - 3" by simp
        with False ne 3 m' show ?thesis by simp
      qed
    qed
  qed
qed

lemma poll_step_flag0:
  assumes "poll_step scr s e = Inr s'" and "\<not> mods s ! 0"
  shows "\<not> mods s' ! 0"
proof (cases e)
  case (Size sz)
  with assms show ?thesis unfolding Size poll_step_Size by (auto split: if_splits)
next
  case (Key k)
  from assms(1) [unfolded Key] poll_step_Key obtain acts m'
    where ke: "keyEvent (mods s) k = Inr (acts, m')" and s': "s' = (emit acts s)\<lparr>mods := m'\<rparr>"
    by blast
  have "m' = mods s \<or> m' = newMods_of k"
  proof (cases "Direction k \<noteq> key_DirRelease \<and> dirKeyCode_at (Code k)")
    case True
    with ke show ?thesis by (auto simp add: keyEvent_dir dirKeyCode_at_iff)
  next
    case False
    then have *: "Direction k = key_DirRelease \<or> \<not> dirKeyCode_at (Code k)" by blast
    obtain macts mm where mk: "modKey (mods s) k = (macts, mm)" by (cases "modKey (mods s) k")
    from modKey_loop_cases [of "newMods_of k" "mods s" 0 macts mm] mk
    have "mm = mods s \<or> mm = newMods_of k" by (auto simp add: modKey_def)
    with ke mk show ?thesis
      by (auto simp add: keyEvent_other [OF *] Let_def split: if_splits)
  qed
  with s' assms(2) show ?thesis by (auto simp add: newMods_of_0)
qed (use assms in \<open>auto split: if_splits\<close>)

lemma poll_step_tex_nonneg:
  assumes "poll_step scr s e = Inr s'" and "0 \<le> X (tex s) \<and> 0 \<le> Y (tex s)"
    and "\<forall>p. e = Size p \<longrightarrow> 0 \<le> X p \<and> 0 \<le> Y p"
  shows "0 \<le> X (tex s') \<and> 0 \<le> Y (tex s')"
proof (cases e)
  case (Size sz)
  with assms show ?thesis
    unfolding Size poll_step_Size by (auto simp add: Mul_def split: if_splits)
next
  case (Key k)
  with assms poll_step_Key [of scr s k s'] show ?thesis by auto
qed (use assms in \<open>auto split: if_splits\<close>)

section \<open>Wheel events\<close>

text \<open>
  C1. The interface \<open>Row\<close> documents \<open>-y\<close> as rolling up and \<open>+y\<close> as rolling down.
  For the button \<open>ButtonWheelUp\<close> the loop calls \<open>Wheel\<close> with \<open>y = 1\<close>, and for
  \<open>ButtonWheelDown\<close> with \<open>y = -1\<close>: the vertical sign is the opposite of the
  documented one, while the horizontal calls (\<open>x = -1\<close> for left, \<open>x = 1\<close> for right)
  follow it.
\<close>

theorem wheel_up_forwarded_positive:
  "poll_step scr s
     (Mouse \<lparr>mouse_X = 3, mouse_Y = 4, Button = ButtonWheelUp, mouse_Direction = mouse_DirStep\<rparr>)
     = Inr (emit [WinWheel (Pt 3 4) 0 1] s)
   \<and> poll_step scr s
     (Mouse \<lparr>mouse_X = 3, mouse_Y = 4, Button = ButtonWheelDown, mouse_Direction = mouse_DirStep\<rparr>)
     = Inr (emit [WinWheel (Pt 3 4) 0 (- 1)] s)"
  by (simp add: mouseEvent_def ButtonWheelUp_def ButtonWheelDown_def)

section \<open>Modifier keys\<close>

text \<open>
  C2. The claim asks that at most one modifier flag changes per key event. \<open>modKey\<close>
  reports the first flag that differs and then assigns all flags of the event
  (\<open>mods = newMods\<close>): from the initial state, one key event that reports shift and alt
  together sets both flags while only \<open>Mod(1)\<close> is forwarded.
\<close>

theorem modKey_two_flags_one_event:
  "mods s0 = [False, False, False, False]
   \<and> poll_step scr0 s0
        (Key \<lparr>Rune = - 1, Code = CodeOther 226, Modifiers = ModShift OR ModAlt,
              Direction = key_DirPress\<rparr>)
      = Inr ((emit [WinMod 1] s0)\<lparr>mods := [False, True, True, False]\<rparr>)"
  by (simp add: s0_def keyEvent_def dirKeyCode_at_iff modKey_def newMods_of_def
      modKey_loop.simps ModShift_def ModAlt_def ModMeta_def ModControl_def)

text \<open>
  The alt press of that event is never forwarded: when alt is released afterwards, the
  window tree receives \<open>Mod(-2)\<close> for a key it was never told was pressed.
\<close>

lemma alt_release_without_press:
  "poll scr0 s0
     [Key \<lparr>Rune = - 1, Code = CodeOther 226, Modifiers = ModShift OR ModAlt,
           Direction = key_DirPress\<rparr>,
      Key \<lparr>Rune = - 1, Code = CodeOther 226, Modifiers = ModShift,
           Direction = key_DirRelease\<rparr>]
   = Inr (s0\<lparr>mods := [False, True, False, False],
            trace := trace s0 @ [WinMod 1, WinMod (- 2)]\<rparr>)"
  by (simp add: s0_def emit_def keyEvent_def dirKeyCode_at_iff modKey_def newMods_of_def
      modKey_loop.simps ModShift_def ModAlt_def ModMeta_def ModControl_def)

section \<open>Directional keys\<close>

text \<open>
  C3. A key event whose direction is not a release (a press, or no direction, which
  \<open>keyEvent\<close> takes as a press) and whose code is a directional one makes exactly one
  call of \<open>Dir\<close>: the arrows give 1 in absolute value along their axis, negative for
  left and up, page up and page down give \<open>y = -2\<close> and \<open>y = 2\<close>, home gives
  \<open>MinInt16\<close> and end \<open>MaxInt16\<close>, the least and greatest values of a signed 16-bit
  integer. Every call of \<open>Dir\<close> the loop makes for a key event comes from an event that
  is not a release, and has exactly one of its arguments non-zero.
\<close>

theorem dir_key_press_encoding:
  "(Direction e \<noteq> key_DirRelease \<longrightarrow>
      (Code e = CodeUpArrow \<longrightarrow> poll_step scr s (Key e) = Inr (emit [WinDir 0 (- 1)] s))
    \<and> (Code e = CodeDownArrow \<longrightarrow> poll_step scr s (Key e) = Inr (emit [WinDir 0 1] s))
    \<and> (Code e = CodeLeftArrow \<longrightarrow> poll_step scr s (Key e) = Inr (emit [WinDir (- 1) 0] s))
    \<and> (Code e = CodeRightArrow \<longrightarrow> poll_step scr s (Key e) = Inr (emit [WinDir 1 0] s))
    \<and> (Code e = CodePageUp \<longrightarrow> poll_step scr s (Key e) = Inr (emit [WinDir 0 (- 2)] s))
    \<and> (Code e = CodePageDown \<longrightarrow> poll_step scr s (Key e) = Inr (emit [WinDir 0 2] s))
    \<and> (Code e = CodeHome \<longrightarrow> poll_step scr s (Key e) = Inr (emit [WinDir 0 MinInt16] s))
    \<and> (Code e = CodeEnd \<longrightarrow> poll_step scr s (Key e) = Inr (emit [WinDir 0 MaxInt16] s)))
   \<and> (\<forall>s' x y. poll_step scr s (Key e) = Inr s' \<and> WinDir x y \<in> set (calls_since s s') \<longrightarrow>
         Direction e \<noteq> key_DirRelease \<and> (x = 0) \<noteq> (y = 0))
   \<and> (\<forall>w :: 16 word. MinInt16 \<le> sint w \<and> sint w \<le> MaxInt16)
   \<and> sint (word_of_int MinInt16 :: 16 word) = MinInt16
   \<and> sint (word_of_int MaxInt16 :: 16 word) = MaxInt16"
proof -
  have press: "poll_step scr s (Key e) = Inr (emit acts s)"
    if "Direction e \<noteq> key_DirRelease" "dirKeyCode_at (Code e)" "dirKey e = Inr acts" for acts
    using that by (simp add: keyEvent_dir)
  have only: "Direction e \<noteq> key_DirRelease \<and> (x = 0) \<noteq> (y = 0)"
    if a: "poll_step scr s (Key e) = Inr s' \<and> WinDir x y \<in> set (calls_since s s')" for s' x y
  proof -
    from a obtain acts m' where k: "keyEvent (mods s) e = Inr (acts, m')"
      and s': "s' = (emit acts s)\<lparr>mods := m'\<rparr>"
      by (auto split: sum.splits)
    from a s' have "WinDir x y \<in> set acts" by simp
    from keyEvent_WinDir [OF k this] show ?thesis by simp
  qed
  have rng: "\<forall>w :: 16 word. MinInt16 \<le> sint w \<and> sint w \<le> MaxInt16"
    using int16_range by blast
  have mn: "sint (word_of_int MinInt16 :: 16 word) = MinInt16"
    and mx: "sint (word_of_int MaxInt16 :: 16 word) = MaxInt16"
    by (simp_all add: MinInt16_def MaxInt16_def)
  show ?thesis
    apply (intro conjI impI allI)
    subgoal by (rule press) (simp_all add: dirKeyCode_at_iff)
    subgoal by (rule press) (simp_all add: dirKeyCode_at_iff)
    subgoal by (rule press) (simp_all add: dirKeyCode_at_iff)
    subgoal by (rule press) (simp_all add: dirKeyCode_at_iff)
    subgoal by (rule press) (simp_all add: dirKeyCode_at_iff)
    subgoal by (rule press) (simp_all add: dirKeyCode_at_iff)
    subgoal by (rule press) (simp_all add: dirKeyCode_at_iff)
    subgoal by (rule press) (simp_all add: dirKeyCode_at_iff)
    subgoal for s' x y using only [of s' x y] by blast
    subgoal for s' x y using only [of s' x y] by blast
    subgoal for w using rng by blast
    subgoal for w using rng by blast
    subgoal by (rule mn)
    subgoal by (rule mx)
    done
qed


theorem dir_key_press_encoding_witness:
  "poll_step scr0 s0
     (Key \<lparr>Rune = - 1, Code = CodeHome, Modifiers = 0, Direction = key_DirPress\<rparr>)
     = Inr (emit [WinDir 0 (- 32768)] s0)
   \<and> poll_step scr0 s0
     (Key \<lparr>Rune = - 1, Code = CodeLeftArrow, Modifiers = 0, Direction = key_DirNone\<rparr>)
     = Inr (emit [WinDir (- 1) 0] s0)"
  using dir_key_press_encoding
      [of "\<lparr>Rune = - 1, Code = CodeHome, Modifiers = 0, Direction = key_DirPress\<rparr>" scr0 s0]
    dir_key_press_encoding
      [of "\<lparr>Rune = - 1, Code = CodeLeftArrow, Modifiers = 0, Direction = key_DirNone\<rparr>" scr0 s0]
  by (simp add: MinInt16_def)

section \<open>Ticks\<close>

text \<open>
  C4. The turn of the loop for a tick calls \<open>Tick\<close> on the window tree once and sends
  a paint event to the window exactly when that call returned true; it does nothing else.
\<close>

theorem tick_requests_paint_iff:
  "\<exists>s'. poll_step scr s Time = Inr s'
      \<and> (Send_paint \<in> set (calls_since s s') \<longleftrightarrow> win_Tick scr (trace s))
      \<and> calls_since s s' = WinTick # (if win_Tick scr (trace s) then [Send_paint] else [])
      \<and> s' = emit (calls_since s s') s"
  by simp

section \<open>Resize events and teardown\<close>




section \<open>Backspace and forward delete\<close>

text \<open>
  C6. A press of backspace is delivered as \<open>Rune\<close> with 8 (the backspace character) and a
  press of forward delete as \<open>Rune\<close> with 127 (\<open>0x7F\<close>), whatever rune the event
  carried; no key event with one of these two codes leads to a call of \<open>Dir\<close>.
\<close>

theorem delete_keys_as_runes:
  "(Code e = CodeDeleteBackspace \<and> Direction e \<noteq> key_DirRelease \<longrightarrow>
      poll_step scr s (Key e) = Inr (emit [WinRune 8] s))
   \<and> (Code e = CodeDeleteForward \<and> Direction e \<noteq> key_DirRelease \<longrightarrow>
      poll_step scr s (Key e) = Inr (emit [WinRune 127] s))
   \<and> (Code e = CodeDeleteBackspace \<or> Code e = CodeDeleteForward \<longrightarrow>
      (\<forall>s' x y. poll_step scr s (Key e) = Inr s' \<longrightarrow> WinDir x y \<notin> set (calls_since s s')))"
proof (intro conjI impI allI)
  assume a: "Code e = CodeDeleteBackspace \<and> Direction e \<noteq> key_DirRelease"
  then have "\<not> dirKeyCode_at (Code e)" by (simp add: dirKeyCode_at_iff)
  then have "keyEvent (mods s) e = Inr ([WinRune 8], mods s)"
    using a by (simp add: keyEvent_other [of e])
  then show "poll_step scr s (Key e) = Inr (emit [WinRune 8] s)" by simp
next
  assume a: "Code e = CodeDeleteForward \<and> Direction e \<noteq> key_DirRelease"
  then have "\<not> dirKeyCode_at (Code e)" by (simp add: dirKeyCode_at_iff)
  then have "keyEvent (mods s) e = Inr ([WinRune 127], mods s)"
    using a by (simp add: keyEvent_other [of e])
  then show "poll_step scr s (Key e) = Inr (emit [WinRune 127] s)" by simp
next
  fix s' x y
  assume c: "Code e = CodeDeleteBackspace \<or> Code e = CodeDeleteForward"
    and st: "poll_step scr s (Key e) = Inr s'"
  from st obtain acts m' where k: "keyEvent (mods s) e = Inr (acts, m')"
    and s': "s' = (emit acts s)\<lparr>mods := m'\<rparr>"
    by (auto split: sum.splits)
  show "WinDir x y \<notin> set (calls_since s s')"
  proof
    assume "WinDir x y \<in> set (calls_since s s')"
    with s' have "WinDir x y \<in> set acts" by simp
    from keyEvent_WinDir [OF k this] have "dirKeyCode_at (Code e)" by simp
    with c show False by (auto simp add: dirKeyCode_at_iff)
  qed
qed

theorem delete_keys_as_runes_witness:
  "poll_step scr0 s0
     (Key \<lparr>Rune = - 1, Code = CodeDeleteBackspace, Modifiers = 0, Direction = key_DirPress\<rparr>)
     = Inr (emit [WinRune 8] s0)
   \<and> poll_step scr0 s0
     (Key \<lparr>Rune = 127, Code = CodeDeleteForward, Modifiers = 0, Direction = key_DirNone\<rparr>)
     = Inr (emit [WinRune 127] s0)
   \<and> WinDir 0 1 \<notin> set (calls_since s0 (emit [WinRune 8] s0))"
  using
    delete_keys_as_runes [of "\<lparr>Rune = - 1, Code = CodeDeleteBackspace, Modifiers = 0, Direction = key_DirPress\<rparr>"
        scr0 s0]
    delete_keys_as_runes [of "\<lparr>Rune = 127, Code = CodeDeleteForward, Modifiers = 0, Direction = key_DirNone\<rparr>"
        scr0 s0]
  by simp

section \<open>Growth of the buffer and the texture\<close>

text \<open>
  C7. With a texture of non-negative width and height, a size event reallocates exactly
  when its size exceeds the bounds of the texture in width or in height: then the
  texture and the buffer are released first and a new buffer and a new texture of twice
  the requested size are made (the loop panics if the screen cannot make them). When
  the size fits, buffer and texture stay as they are and nothing is released or
  allocated: there is no shrinking.
\<close>

theorem resize_reallocates_iff_exceeds:
  assumes cap: "0 \<le> X (tex s) \<and> 0 \<le> Y (tex s)"
  shows
    "(X (tex s) < X sz \<or> Y (tex s) < Y sz \<longrightarrow>
        (NewBuffer_ok scr (Mul sz 2) \<and> NewTexture_ok scr (Mul sz 2) \<longrightarrow>
           (\<exists>s'. poll_step scr s (Size sz) = Inr s'
              \<and> calls_since s s' = [WinResize sz, TexRelease, BufRelease,
                                     NewBuffer (Mul sz 2), NewTexture (Mul sz 2)]
              \<and> buf s' = Mul sz 2 \<and> tex s' = Mul sz 2))
        \<and> (\<not> (NewBuffer_ok scr (Mul sz 2) \<and> NewTexture_ok scr (Mul sz 2)) \<longrightarrow>
              poll_step scr s (Size sz) = Inl AllocFailed))
     \<and> (\<not> (X (tex s) < X sz \<or> Y (tex s) < Y sz) \<longrightarrow>
          (\<exists>s'. poll_step scr s (Size sz) = Inr s'
             \<and> buf s' = buf s \<and> tex s' = tex s
             \<and> set (calls_since s s') \<subseteq> {WinResize sz, Cancel}))
     \<and> X (Mul sz 2) = 2 * X sz \<and> Y (Mul sz 2) = 2 * Y sz"
proof (intro conjI impI)
  assume ex: "X (tex s) < X sz \<or> Y (tex s) < Y sz"
  with cap have nz: "sz \<noteq> ZP" by (auto simp add: ZP_def)
  {
    assume "NewBuffer_ok scr (Mul sz 2) \<and> NewTexture_ok scr (Mul sz 2)"
    with ex nz show "\<exists>s'. poll_step scr s (Size sz) = Inr s'
              \<and> calls_since s s' = [WinResize sz, TexRelease, BufRelease,
                                     NewBuffer (Mul sz 2), NewTexture (Mul sz 2)]
              \<and> buf s' = Mul sz 2 \<and> tex s' = Mul sz 2"
      unfolding poll_step_Size by (simp add: calls_since_def)
  }
  {
    assume "\<not> (NewBuffer_ok scr (Mul sz 2) \<and> NewTexture_ok scr (Mul sz 2))"
    with ex nz show "poll_step scr s (Size sz) = Inl AllocFailed"
      unfolding poll_step_Size by simp
  }
next
  assume "\<not> (X (tex s) < X sz \<or> Y (tex s) < Y sz)"
  then show "\<exists>s'. poll_step scr s (Size sz) = Inr s'
             \<and> buf s' = buf s \<and> tex s' = tex s
             \<and> set (calls_since s s') \<subseteq> {WinResize sz, Cancel}"
    unfolding poll_step_Size by (simp add: calls_since_def)
qed (simp_all add: Mul_def)

theorem resize_reallocates_iff_exceeds_witness:
  "0 \<le> X (tex s0) \<and> 0 \<le> Y (tex s0)
   \<and> poll_step scr0 s0 (Size (Pt 1024 500))
       = Inr (s0\<lparr>w_size := Pt 1024 500, dirty := True, buf := Pt 2048 1000, tex := Pt 2048 1000,
                 trace := trace s0 @ [WinResize (Pt 1024 500), TexRelease, BufRelease,
                                      NewBuffer (Pt 2048 1000), NewTexture (Pt 2048 1000)]\<rparr>)
   \<and> (\<exists>s'. poll_step scr0 s0 (Size (Pt 640 480)) = Inr s' \<and> buf s' = buf s0 \<and> tex s' = tex s0)"
proof -
  have cap: "0 \<le> X (tex s0) \<and> 0 \<le> Y (tex s0)" by (simp add: s0_def Pt_def)
  have fits: "\<not> (X (tex s0) < X (Pt 640 480) \<or> Y (tex s0) < Y (Pt 640 480))"
    by (simp add: s0_def Pt_def)
  from resize_reallocates_iff_exceeds [OF cap, of "Pt 640 480" scr0] fits
  have "\<exists>s'. poll_step scr0 s0 (Size (Pt 640 480)) = Inr s' \<and> buf s' = buf s0 \<and> tex s' = tex s0"
    by blast
  moreover have "poll_step scr0 s0 (Size (Pt 1024 500))
       = Inr (s0\<lparr>w_size := Pt 1024 500, dirty := True, buf := Pt 2048 1000, tex := Pt 2048 1000,
                 trace := trace s0 @ [WinResize (Pt 1024 500), TexRelease, BufRelease,
                                      NewBuffer (Pt 2048 1000), NewTexture (Pt 2048 1000)]\<rparr>)"
    unfolding poll_step_Size by (simp add: s0_def scr0_def Pt_def ZP_def Mul_def)
  ultimately show ?thesis using cap by blast
qed

section \<open>Order of events, resize before draw\<close>

text \<open>
  C8, as stated, fails for a size event with the zero size: it is not applied
  (\<open>Win.Resize\<close> is not called, the dirty flag is not raised), so the first paint after
  it is a partial redraw, \<open>Draw\<close> with \<open>dirty = false\<close>.
\<close>

theorem paint_after_zero_resize_not_full:
  "poll scr0 s0 [Paint, Size ZP, Paint]
     = Inr (s0\<lparr>dirty := False,
              trace := trace s0 @
                [WinDraw True \<lparr>rect_Min = ZP, rect_Max = Pt 800 600\<rparr>, TexUpload, WindowDraw, Publish,
                 Cancel,
                 WinDraw False \<lparr>rect_Min = ZP, rect_Max = Pt 800 600\<rparr>, TexUpload, WindowDraw,
                 Publish]\<rparr>)"
  by (simp add: s0_def emit_def Let_def)

text \<open>
  C8, amended. The loop takes the events one after the other in the order of arrival:
  running it on a list of events is running it on a first part and then, from the state
  reached, on the rest. A size event with a size other than the zero point is applied at
  once: \<open>Win.Resize\<close> is the first call of its turn and the dirty flag is raised; with
  no paint in between, the next paint event calls \<open>Draw\<close> with \<open>dirty = true\<close>, after
  the call of \<open>Win.Resize\<close>, and clears the flag. After a paint event the flag stays
  cleared, and no \<open>Draw\<close> with \<open>dirty = true\<close> is made, as long as no size event with
  a size other than the zero point arrives.
\<close>

theorem resize_then_full_redraw:
  "(Done \<notin> set es \<longrightarrow>
      poll scr s (es @ es') =
        (case poll scr s es of Inl err \<Rightarrow> Inl err | Inr s1 \<Rightarrow> poll scr s1 es'))
   \<and> (sz \<noteq> ZP \<and> Paint \<notin> set es \<and> Done \<notin> set es \<longrightarrow>
        (\<forall>s2. poll scr s (Size sz # es @ [Paint]) = Inr s2 \<longrightarrow>
           (\<exists>s1. poll scr s (Size sz # es) = Inr s1 \<and> dirty s1
              \<and> hd (calls_since s s1) = WinResize sz
              \<and> trace s1 = trace s @ calls_since s s1
              \<and> trace s2 = trace s1 @
                    [WinDraw True \<lparr>rect_Min = ZP, rect_Max = w_size s1\<rparr>,
                     TexUpload, WindowDraw, Publish]
              \<and> \<not> dirty s2)))
   \<and> ((\<forall>p. Size p \<in> set es \<longrightarrow> p = ZP) \<longrightarrow>
        (\<forall>s1 s2. poll_step scr s Paint = Inr s1 \<and> poll scr s1 es = Inr s2 \<longrightarrow>
           \<not> dirty s1 \<and> \<not> dirty s2 \<and> (\<forall>r. WinDraw True r \<notin> set (calls_since s1 s2))))"
proof (intro conjI impI allI)
  assume "Done \<notin> set es"
  then show "poll scr s (es @ es') =
      (case poll scr s es of Inl err \<Rightarrow> Inl err | Inr s1 \<Rightarrow> poll scr s1 es')"
    by (rule poll_append)
next
  fix s2
  assume h: "sz \<noteq> ZP \<and> Paint \<notin> set es \<and> Done \<notin> set es"
    and run: "poll scr s (Size sz # es @ [Paint]) = Inr s2"
  from h have nd: "Done \<notin> set (Size sz # es)" by simp
  from run have "poll scr s ((Size sz # es) @ [Paint]) = Inr s2" by simp
  then obtain s1 where r1: "poll scr s (Size sz # es) = Inr s1"
    and p: "poll scr s1 [Paint] = Inr s2"
    unfolding poll_append [OF nd] by (auto split: sum.splits)
  from r1 obtain sa where st: "poll_step scr s (Size sz) = Inr sa"
    and r2: "poll scr sa es = Inr s1"
    by (auto split: sum.splits)
  from st h have da: "dirty sa" and ha: "hd (calls_since s sa) = WinResize sz"
    and ne: "calls_since s sa \<noteq> []"
    unfolding poll_step_Size by (auto simp add: calls_since_def split: if_splits)
  from poll_keeps_dirty [OF r2] h da have d1: "dirty s1" by simp
  have "calls_since s s1 = calls_since s sa @ calls_since sa s1"
    by (rule calls_since_trans [OF poll_step_trace [OF st] poll_trace [OF r2]])
  with ha ne have h1: "hd (calls_since s s1) = WinResize sz" by simp
  from p d1 have t2: "trace s2 = trace s1 @
      [WinDraw True \<lparr>rect_Min = ZP, rect_Max = w_size s1\<rparr>, TexUpload, WindowDraw, Publish]"
    and d2: "\<not> dirty s2"
    by (auto simp add: poll_step_Paint)
  from r1 d1 h1 poll_trace [OF r1] t2 d2
  show "\<exists>s1. poll scr s (Size sz # es) = Inr s1 \<and> dirty s1
      \<and> hd (calls_since s s1) = WinResize sz
      \<and> trace s1 = trace s @ calls_since s s1
      \<and> trace s2 = trace s1 @
            [WinDraw True \<lparr>rect_Min = ZP, rect_Max = w_size s1\<rparr>, TexUpload, WindowDraw, Publish]
      \<and> \<not> dirty s2"
    by blast
next
  fix s1 s2
  assume z: "\<forall>p. Size p \<in> set es \<longrightarrow> p = ZP"
    and a: "poll_step scr s Paint = Inr s1 \<and> poll scr s1 es = Inr s2"
  from a have d1: "\<not> dirty s1" by (auto simp add: poll_step_Paint)
  from a have r: "poll scr s1 es = Inr s2" by simp
  from poll_stays_clean [OF r d1 z] d1
  show "\<not> dirty s1" "\<not> dirty s2" "\<And>r. WinDraw True r \<notin> set (calls_since s1 s2)"
    by simp_all
qed

theorem resize_then_full_redraw_witness:
  "poll scr0 s0
     (Size (Pt 640 480) #
      [Mouse \<lparr>mouse_X = 3, mouse_Y = 4, Button = ButtonNone, mouse_Direction = mouse_DirNone\<rparr>]
      @ [Paint])
   = Inr (s0\<lparr>w_size := Pt 640 480, dirty := False,
            trace := trace s0 @
              [WinResize (Pt 640 480), WinMove (Pt 3 4),
               WinDraw True \<lparr>rect_Min = ZP, rect_Max = Pt 640 480\<rparr>, TexUpload, WindowDraw,
               Publish]\<rparr>)
   \<and> (\<exists>s1. poll scr0 s0
          (Size (Pt 640 480) #
           [Mouse \<lparr>mouse_X = 3, mouse_Y = 4, Button = ButtonNone, mouse_Direction = mouse_DirNone\<rparr>])
          = Inr s1 \<and> dirty s1 \<and> hd (calls_since s0 s1) = WinResize (Pt 640 480))"
proof -
  let ?m = "\<lparr>mouse_X = 3, mouse_Y = 4, Button = ButtonNone, mouse_Direction = mouse_DirNone\<rparr>"
  let ?s2 = "s0\<lparr>w_size := Pt 640 480, dirty := False,
            trace := trace s0 @
              [WinResize (Pt 640 480), WinMove (Pt 3 4),
               WinDraw True \<lparr>rect_Min = ZP, rect_Max = Pt 640 480\<rparr>, TexUpload, WindowDraw,
               Publish]\<rparr>"
  have mv: "mouseEvent ?m = [WinMove (Pt 3 4)]"
    by (simp add: mouseEvent_def ButtonNone_def ButtonWheelUp_def ButtonWheelDown_def
        ButtonWheelLeft_def ButtonWheelRight_def)
  have sz: "poll_step scr0 s0 (Size (Pt 640 480))
      = Inr (s0\<lparr>w_size := Pt 640 480, dirty := True, trace := trace s0 @ [WinResize (Pt 640 480)]\<rparr>)"
    unfolding poll_step_Size by (simp add: s0_def Pt_def ZP_def)
  have run: "poll scr0 s0 (Size (Pt 640 480) # [Mouse ?m] @ [Paint]) = Inr ?s2"
    by (simp add: sz mv poll_step_Paint emit_def del: poll_step.simps(4,5))
  have h: "Pt 640 480 \<noteq> ZP \<and> Paint \<notin> set [Mouse ?m] \<and> Done \<notin> set [Mouse ?m]"
    by (simp add: Pt_def ZP_def)
  from resize_then_full_redraw [of "[Mouse ?m]" scr0 s0 "[]" "Pt 640 480"] h run
  have "\<exists>s1. poll scr0 s0 (Size (Pt 640 480) # [Mouse ?m]) = Inr s1 \<and> dirty s1
      \<and> hd (calls_since s0 s1) = WinResize (Pt 640 480)"
    by blast
  with run show ?thesis by blast
qed

section \<open>Step events of the pointer\<close>

text \<open>
  C9, as stated, fails for the wheel buttons: \<open>mouseEvent\<close> tests the four wheel
  buttons before the direction, so a step event of a wheel button (the form in which the
  platform reports a turn of the wheel) is one call of \<open>Wheel\<close> and no \<open>Click\<close>.
\<close>

theorem wheel_step_is_not_click:
  "poll_step scr0 s0
     (Mouse \<lparr>mouse_X = 3, mouse_Y = 4, Button = ButtonWheelLeft, mouse_Direction = mouse_DirStep\<rparr>)
   = Inr (emit [WinWheel (Pt 3 4) (- 1) 0] s0)"
  by (simp add: mouseEvent_def ButtonWheelUp_def ButtonWheelDown_def ButtonWheelLeft_def)

text \<open>
  C9, amended. A pointer event with direction step whose button is not one of the four
  wheel buttons is dispatched, within one turn of the loop, as \<open>Click(pt, b)\<close> followed
  at once by \<open>Click(pt, -b)\<close> at the same point; an event of a wheel button is one call
  of \<open>Wheel\<close>, whatever its direction.
\<close>

theorem button_step_is_press_release:
  "(mouse_Direction e = mouse_DirStep
      \<and> Button e \<notin> {ButtonWheelUp, ButtonWheelDown, ButtonWheelLeft, ButtonWheelRight} \<longrightarrow>
      poll_step scr s (Mouse e) =
        Inr (emit [WinClick (Pt (mouse_X e) (mouse_Y e)) (Button e),
                   WinClick (Pt (mouse_X e) (mouse_Y e)) (- Button e)] s))
   \<and> (Button e \<in> {ButtonWheelUp, ButtonWheelDown, ButtonWheelLeft, ButtonWheelRight} \<longrightarrow>
        (\<exists>x y. poll_step scr s (Mouse e) = Inr (emit [WinWheel (Pt (mouse_X e) (mouse_Y e)) x y] s)))"
  by (auto simp add: mouseEvent_def Let_def)

theorem button_step_is_press_release_witness:
  "ButtonLeft \<notin> {ButtonWheelUp, ButtonWheelDown, ButtonWheelLeft, ButtonWheelRight}
   \<and> poll_step scr0 s0
       (Mouse \<lparr>mouse_X = 3, mouse_Y = 4, Button = ButtonLeft, mouse_Direction = mouse_DirStep\<rparr>)
     = Inr (emit [WinClick (Pt 3 4) 1, WinClick (Pt 3 4) (- 1)] s0)"
proof -
  have nw: "ButtonLeft \<notin> {ButtonWheelUp, ButtonWheelDown, ButtonWheelLeft, ButtonWheelRight}"
    by (simp add: ButtonLeft_def ButtonWheelUp_def ButtonWheelDown_def ButtonWheelLeft_def
        ButtonWheelRight_def)
  from button_step_is_press_release [of "\<lparr>mouse_X = 3, mouse_Y = 4, Button = ButtonLeft, mouse_Direction = mouse_DirStep\<rparr>"
      scr0 s0] nw
  show ?thesis by (simp add: ButtonLeft_def)
qed

section \<open>Runes\<close>

text \<open>
  C10. Every call of \<open>Rune\<close> the loop makes, on any list of events and also counted
  from the start of \<open>poll\<close>, has a positive argument. A release of a key with a
  positive rune changes nothing and calls nothing. A key event without direction is
  handled as the same event with direction press. A press of the return key (or of any
  key that is neither directional nor backspace nor forward delete) with the rune 13,
  carriage return, is delivered as \<open>Rune\<close> with 10, line feed.
\<close>

theorem rune_calls_positive:
  "(\<forall>s' r. poll scr s es = Inr s' \<and> WinRune r \<in> set (calls_since s s') \<longrightarrow> 0 < r)
   \<and> (\<forall>si s' r. poll_init scr isz = Inr si \<and> poll scr si es = Inr s' \<and> WinRune r \<in> set (trace s')
          \<longrightarrow> 0 < r)
   \<and> (Direction e = key_DirRelease \<and> 0 < Rune e \<longrightarrow> poll_step scr s (Key e) = Inr s)
   \<and> poll_step scr s (Key (e\<lparr>Direction := key_DirNone\<rparr>))
       = poll_step scr s (Key (e\<lparr>Direction := key_DirPress\<rparr>))
   \<and> (Rune e = 13 \<and> Direction e \<noteq> key_DirRelease
        \<and> (Code e = CodeReturnEnter \<or> (\<exists>n. Code e = CodeOther n)) \<longrightarrow>
        poll_step scr s (Key e) = Inr (emit [WinRune 10] s))"
proof (intro conjI impI allI)
  fix s' r
  assume a: "poll scr s es = Inr s' \<and> WinRune r \<in> set (calls_since s s')"
  have "\<forall>a \<in> set (calls_since s s'). \<forall>r. a = WinRune r \<longrightarrow> 0 < r"
  proof (rule poll_calls)
    show "poll scr s es = Inr s'" using a by simp
  next
    fix s1 e s2
    assume "poll_step scr s1 e = Inr s2"
    then show "\<forall>a \<in> set (calls_since s1 s2). \<forall>r. a = WinRune r \<longrightarrow> 0 < r"
      using poll_step_Rune_pos by blast
  qed
  with a show "0 < r" by blast
next
  fix si s' r
  assume a: "poll_init scr isz = Inr si \<and> poll scr si es = Inr s' \<and> WinRune r \<in> set (trace s')"
  then have "trace si = [WinResize isz, NewBuffer isz, NewTexture isz]"
    by (auto simp add: poll_init_def bufTex_def split: if_splits)
  moreover from a have "poll scr si es = Inr s'" by simp
  then have "trace s' = trace si @ calls_since si s'" by (rule poll_trace)
  ultimately have r: "WinRune r \<in> set (calls_since si s')" using a by auto
  have "\<forall>a \<in> set (calls_since si s'). \<forall>r. a = WinRune r \<longrightarrow> 0 < r"
  proof (rule poll_calls)
    show "poll scr si es = Inr s'" using a by simp
  next
    fix s1 e s2
    assume "poll_step scr s1 e = Inr s2"
    then show "\<forall>a \<in> set (calls_since s1 s2). \<forall>r. a = WinRune r \<longrightarrow> 0 < r"
      using poll_step_Rune_pos by blast
  qed
  with r show "0 < r" by blast
next
  assume a: "Direction e = key_DirRelease \<and> 0 < Rune e"
  then have "keyEvent (mods s) e = Inr ([], mods s)"
    by (simp add: keyEvent_other [of e])
  then show "poll_step scr s (Key e) = Inr s" by simp
next
  show "poll_step scr s (Key (e\<lparr>Direction := key_DirNone\<rparr>))
       = poll_step scr s (Key (e\<lparr>Direction := key_DirPress\<rparr>))"
    by (simp add: keyEvent_DirNone)
next
  assume a: "Rune e = 13 \<and> Direction e \<noteq> key_DirRelease
        \<and> (Code e = CodeReturnEnter \<or> (\<exists>n. Code e = CodeOther n))"
  then have nd: "\<not> dirKeyCode_at (Code e)" by (auto simp add: dirKeyCode_at_iff)
  from a have "Code e \<noteq> CodeDeleteBackspace" "Code e \<noteq> CodeDeleteForward" by auto
  with a nd have "keyEvent (mods s) e = Inr ([WinRune 10], mods s)"
    by (simp add: keyEvent_other [of e])
  then show "poll_step scr s (Key e) = Inr (emit [WinRune 10] s)" by simp
qed

theorem rune_calls_positive_witness:
  "poll_step scr0 s0
     (Key \<lparr>Rune = 13, Code = CodeReturnEnter, Modifiers = 0, Direction = key_DirNone\<rparr>)
     = Inr (emit [WinRune 10] s0)
   \<and> poll_step scr0 s0
     (Key \<lparr>Rune = 97, Code = CodeOther 4, Modifiers = 0, Direction = key_DirRelease\<rparr>)
     = Inr s0
   \<and> (0 :: int) < 10"
proof -
  let ?cr = "\<lparr>Rune = 13, Code = CodeReturnEnter, Modifiers = 0, Direction = key_DirNone\<rparr>"
  let ?rel = "\<lparr>Rune = 97, Code = CodeOther 4, Modifiers = 0, Direction = key_DirRelease\<rparr>"
  have pc: "Rune ?cr = 13 \<and> Direction ?cr \<noteq> key_DirRelease
      \<and> (Code ?cr = CodeReturnEnter \<or> (\<exists>n. Code ?cr = CodeOther n))"
    by simp
  have pr: "Direction ?rel = key_DirRelease \<and> 0 < Rune ?rel" by simp
  have cr: "poll_step scr0 s0 (Key ?cr) = Inr (emit [WinRune 10] s0)"
    using rune_calls_positive [where scr = scr0 and s = s0 and es = "[]" and e = ?cr and isz = ZP] pc
    by blast
  have rel: "poll_step scr0 s0 (Key ?rel) = Inr s0"
    using rune_calls_positive [where scr = scr0 and s = s0 and es = "[]" and e = ?rel and isz = ZP] pr
    by blast
  have run: "poll scr0 s0 [Key ?cr] = Inr (emit [WinRune 10] s0)"
    using cr by (simp del: poll_step.simps)
  have "WinRune 10 \<in> set (calls_since s0 (emit [WinRune 10] s0))" by simp
  with run rune_calls_positive [where scr = scr0 and s = s0 and es = "[Key ?cr]" and e = ?cr and isz = ZP]
  have "(0 :: int) < 10" by blast
  with cr rel show ?thesis by blast
qed

end
